theory Spec2Isabelle
  imports Main "HOL-Library.Multiset"
begin

section \<open>The streaming word count of structured\_streaming.ipynb\<close>

text \<open>
  The notebook wires a socket text stream into three transformations and one output
  operation:
  \<^verbatim>\<open>
  lines = ssc.socketTextStream("localhost", 9999)
  words = lines.flatMap(lambda line: line.split(" "))
  pairs = words.map(lambda word: (word, 1))
  wordCounts = pairs.reduceByKey(lambda x, y: x + y)
  wordCounts.pprint()
  \<close>
  A discretised stream is a sequence of micro-batches, each batch a finite sequence of
  records. Every transformation of the notebook acts on each batch by itself: none of
  them carries state from one batch to the next.
\<close>

type_synonym 'a rdd = "'a list"
type_synonym 'a dstream = "'a rdd list"

subsection \<open>The three lambdas\<close>

text \<open>
  \<^verbatim>\<open>line.split(" ")\<close> with a separator of one character: the line is cut at every
  occurrence of the separator, so a line with \<open>n\<close> separators gives \<open>n + 1\<close> pieces,
  empty pieces included. \<open>cur\<close> holds, reversed, the characters of the piece being read.
\<close>

fun split_from :: "char \<Rightarrow> string \<Rightarrow> string \<Rightarrow> string list" where
  "split_from sep cur [] = [rev cur]"
| "split_from sep cur (c # cs) =
     (if c = sep then rev cur # split_from sep [] cs
      else split_from sep (c # cur) cs)"

definition split :: "string \<Rightarrow> char \<Rightarrow> string list" where
  "split line sep = split_from sep [] line"

text \<open>\<^verbatim>\<open>lambda line: line.split(" ")\<close>\<close>

definition line_to_words :: "string \<Rightarrow> string list" where
  "line_to_words line = split line CHR '' ''"

text \<open>\<^verbatim>\<open>lambda word: (word, 1)\<close>\<close>

definition word_to_pair :: "string \<Rightarrow> string \<times> int" where
  "word_to_pair word = (word, 1)"

text \<open>\<^verbatim>\<open>lambda x, y: x + y\<close>, on Python's unbounded integers.\<close>

definition add_counts :: "int \<Rightarrow> int \<Rightarrow> int" where
  "add_counts x y = x + y"

subsection \<open>The engine's transformations, batch by batch\<close>

text \<open>
  \<open>flatMap\<close> applies the function to every record and concatenates the results;
  \<open>map\<close> applies it to every record.
\<close>

definition rdd_flatMap :: "('a \<Rightarrow> 'b list) \<Rightarrow> 'a rdd \<Rightarrow> 'b rdd" where
  "rdd_flatMap f records = concat (map f records)"

definition rdd_map :: "('a \<Rightarrow> 'b) \<Rightarrow> 'a rdd \<Rightarrow> 'b rdd" where
  "rdd_map f records = map f records"

text \<open>
  \<open>reduceByKey\<close> keeps one combined value per key: the first value of a key starts its
  entry, every later value of that key is merged into the entry with the reduce function.
  The entries are kept in the order in which their keys first occur; the engine promises
  no order, so the properties below speak of the set of pairs.
\<close>

fun merge_value :: "('v \<Rightarrow> 'v \<Rightarrow> 'v) \<Rightarrow> 'k \<Rightarrow> 'v \<Rightarrow> ('k \<times> 'v) list \<Rightarrow> ('k \<times> 'v) list" where
  "merge_value f k v [] = [(k, v)]"
| "merge_value f k v ((k', v') # acc) =
     (if k' = k then (k', f v' v) # acc else (k', v') # merge_value f k v acc)"

fun combine_by_key :: "('v \<Rightarrow> 'v \<Rightarrow> 'v) \<Rightarrow> ('k \<times> 'v) list \<Rightarrow> ('k \<times> 'v) list \<Rightarrow> ('k \<times> 'v) list" where
  "combine_by_key f acc [] = acc"
| "combine_by_key f acc ((k, v) # kvs) = combine_by_key f (merge_value f k v acc) kvs"

definition rdd_reduceByKey :: "('v \<Rightarrow> 'v \<Rightarrow> 'v) \<Rightarrow> ('k \<times> 'v) rdd \<Rightarrow> ('k \<times> 'v) rdd" where
  "rdd_reduceByKey f records = combine_by_key f [] records"

definition flatMap :: "('a \<Rightarrow> 'b list) \<Rightarrow> 'a dstream \<Rightarrow> 'b dstream" where
  "flatMap f ds = map (rdd_flatMap f) ds"

definition map_stream :: "('a \<Rightarrow> 'b) \<Rightarrow> 'a dstream \<Rightarrow> 'b dstream" where
  "map_stream f ds = map (rdd_map f) ds"

definition reduceByKey :: "('v \<Rightarrow> 'v \<Rightarrow> 'v) \<Rightarrow> ('k \<times> 'v) dstream \<Rightarrow> ('k \<times> 'v) dstream" where
  "reduceByKey f ds = map (rdd_reduceByKey f) ds"

subsection \<open>The notebook's pipeline\<close>

text \<open>
  \<open>lines\<close> is what the socket delivers, one list of text lines per batch interval; the
  three streams derived from it carry the notebook's names.
\<close>

definition words :: "string dstream \<Rightarrow> string dstream" where
  "words lines = flatMap line_to_words lines"

definition pairs :: "string dstream \<Rightarrow> (string \<times> int) dstream" where
  "pairs lines = map_stream word_to_pair (words lines)"

definition wordCounts :: "string dstream \<Rightarrow> (string \<times> int) dstream" where
  "wordCounts lines = reduceByKey add_counts (pairs lines)"

subsection \<open>The output operation\<close>

text \<open>
  \<^verbatim>\<open>wordCounts.pprint()\<close> is announced in the notebook by the comment ``Print the
  first ten elements of each RDD generated in this DStream to the console'': the engine's
  \<open>pprint(num=10)\<close> takes \<open>num + 1\<close> records of a batch, prints a header with the
  batch time, at most \<open>num\<close> of the records taken, a line of dots when more than \<open>num\<close>
  were taken, and an empty line. The notebook's recorded output shows the header and the
  empty line for every batch, also for the empty ones. A console line is kept structured;
  the batch time is a number of seconds. The records are printed in the order in which the
  engine holds them, which need not be the order of \<open>rdd_reduceByKey\<close> above: the
  properties of printing are stated for every ordering of a batch's pairs.
\<close>

datatype 'a console_line = Rule | Time_line nat | Record 'a | Ellipsis | Blank

definition takeAndPrint :: "nat \<Rightarrow> nat \<Rightarrow> 'a rdd \<Rightarrow> 'a console_line list" where
  "takeAndPrint num time records =
     (let taken = take (num + 1) records
      in [Rule, Time_line time, Rule]
         @ map Record (take num taken)
         @ (if length taken > num then [Ellipsis] else [])
         @ [Blank])"

text \<open>One block of console lines per batch, each under the time of its batch.\<close>

definition pprint :: "nat \<Rightarrow> nat list \<Rightarrow> 'a dstream \<Rightarrow> 'a console_line list list" where
  "pprint num batch_times ds =
     map (\<lambda>(time, records). takeAndPrint num time records) (zip batch_times ds)"

text \<open>The records a block of console lines shows.\<close>

fun records_of :: "'a console_line list \<Rightarrow> 'a list" where
  "records_of [] = []"
| "records_of (Record r # ls) = r # records_of ls"
| "records_of (l # ls) = records_of ls"

subsection \<open>The notebook as a sequence of engine calls\<close>

text \<open>
  The code cells of the notebook are straight-line code: each statement is one call of the
  engine's API, with the arguments written in the cell.
\<close>

datatype api_call =
    SparkContext_new string
  | StreamingContext_new int
  | SocketTextStream string int
  | FlatMap "string \<Rightarrow> string list"
  | Map_call "string \<Rightarrow> string \<times> int"
  | ReduceByKey "int \<Rightarrow> int \<Rightarrow> int"
  | PPrint
  | Start
  | AwaitTermination int

text \<open>\<^verbatim>\<open>sc = SparkContext('local')\<close>\<close>

definition cell_1 :: "api_call list" where
  "cell_1 = [SparkContext_new ''local'']"

text \<open>\<^verbatim>\<open>ssc = StreamingContext(sc, 5)\<close>\<close>

definition cell_2 :: "api_call list" where
  "cell_2 = [StreamingContext_new 5]"

text \<open>The five statements that build \<open>lines\<close>, \<open>words\<close>, \<open>pairs\<close> and \<open>wordCounts\<close> and
  register the printing.\<close>

definition cell_3 :: "api_call list" where
  "cell_3 = [SocketTextStream ''localhost'' 9999,
             FlatMap line_to_words,
             Map_call word_to_pair,
             ReduceByKey add_counts,
             PPrint]"

text \<open>\<^verbatim>\<open>ssc.start()\<close> and \<^verbatim>\<open>ssc.awaitTermination(20)\<close>. The notebook shows this cell
  twice, once without and once with its recorded output; it is one cell of the run.\<close>

definition cell_4 :: "api_call list" where
  "cell_4 = [Start, AwaitTermination 20]"

definition notebook :: "api_call list" where
  "notebook = cell_1 @ cell_2 @ cell_3 @ cell_4"

text \<open>
  The engine is not part of the notebook: \<open>exec\<close> is whatever the engine does with a call
  in a state of its own, returning the next state or raising an error. The lambdas are
  handed to the engine with the calls, so an error raised while the engine evaluates one
  of them is an error of the engine call during which it is evaluated. A sequence of calls
  stops at the first error; the result then holds the error and the state the engine was
  in when it raised.
\<close>

fun run_calls :: "(api_call \<Rightarrow> 's \<Rightarrow> 'e + 's) \<Rightarrow> api_call list \<Rightarrow> 's \<Rightarrow> ('e \<times> 's) + 's" where
  "run_calls exec [] s = Inr s"
| "run_calls exec (c # cs) s =
     (case exec c s of Inl e \<Rightarrow> Inl (e, s) | Inr s' \<Rightarrow> run_calls exec cs s')"

text \<open>
  A statement of a cell is either a plain call or, in Python, a \<^verbatim>\<open>try\<close> block with
  its \<^verbatim>\<open>except\<close> handler: when the body raises, the error is dropped and the handler
  runs from the state reached. Every statement of the notebook's four cells is a plain
  call; none stands inside a \<^verbatim>\<open>try\<close>.
\<close>

datatype stmt = Call api_call | Try_except "api_call list" "api_call list"

fun run_stmt :: "(api_call \<Rightarrow> 's \<Rightarrow> 'e + 's) \<Rightarrow> stmt \<Rightarrow> 's \<Rightarrow> ('e \<times> 's) + 's" where
  "run_stmt exec (Call c) s = run_calls exec [c] s"
| "run_stmt exec (Try_except body handler) s =
     (case run_calls exec body s of
        Inl (e, s') \<Rightarrow> run_calls exec handler s'
      | Inr s' \<Rightarrow> Inr s')"

fun run_program :: "(api_call \<Rightarrow> 's \<Rightarrow> 'e + 's) \<Rightarrow> stmt list \<Rightarrow> 's \<Rightarrow> ('e \<times> 's) + 's" where
  "run_program exec [] s = Inr s"
| "run_program exec (st # sts) s =
     (case run_stmt exec st s of Inl es \<Rightarrow> Inl es | Inr s' \<Rightarrow> run_program exec sts s')"

definition notebook_program :: "stmt list" where
  "notebook_program = map Call notebook"

text \<open>What kind of call each one is, in the engine's vocabulary.\<close>

datatype call_kind =
  Create_context | Create_stream | Transformation | Output_operation
  | Start_computation | Await_termination

fun kind :: "api_call \<Rightarrow> call_kind" where
  "kind (SparkContext_new master) = Create_context"
| "kind (StreamingContext_new interval) = Create_context"
| "kind (SocketTextStream host port) = Create_stream"
| "kind (FlatMap f) = Transformation"
| "kind (Map_call f) = Transformation"
| "kind (ReduceByKey f) = Transformation"
| "kind PPrint = Output_operation"
| "kind Start = Start_computation"
| "kind (AwaitTermination timeout) = Await_termination"

text \<open>The API function each call invokes.\<close>

datatype api_name =
  N_SparkContext | N_StreamingContext | N_socketTextStream | N_flatMap | N_map
  | N_reduceByKey | N_pprint | N_start | N_awaitTermination

fun name_of :: "api_call \<Rightarrow> api_name" where
  "name_of (SparkContext_new master) = N_SparkContext"
| "name_of (StreamingContext_new interval) = N_StreamingContext"
| "name_of (SocketTextStream host port) = N_socketTextStream"
| "name_of (FlatMap f) = N_flatMap"
| "name_of (Map_call f) = N_map"
| "name_of (ReduceByKey f) = N_reduceByKey"
| "name_of PPrint = N_pprint"
| "name_of Start = N_start"
| "name_of (AwaitTermination timeout) = N_awaitTermination"

text \<open>The calls after the creation of the stream and before the start.\<close>

definition stream_setup :: "api_call list \<Rightarrow> api_call list" where
  "stream_setup calls =
     takeWhile (\<lambda>c. kind c \<noteq> Start_computation)
       (drop 1 (dropWhile (\<lambda>c. kind c \<noteq> Create_stream) calls))"

text \<open>The numbers and strings a call passes to the engine.\<close>

datatype scalar = Int_arg int | Str_arg string

fun scalar_args :: "api_call \<Rightarrow> scalar list" where
  "scalar_args (SparkContext_new master) = [Str_arg master]"
| "scalar_args (StreamingContext_new interval) = [Int_arg interval]"
| "scalar_args (SocketTextStream host port) = [Str_arg host, Int_arg port]"
| "scalar_args (AwaitTermination timeout) = [Int_arg timeout]"
| "scalar_args c = []"

text \<open>
  An engine that, like the real one, allows one \<open>SparkContext\<close> in a process: its state
  says whether a context is already active and counts the calls it has accepted.
\<close>

fun one_context_engine :: "api_call \<Rightarrow> bool \<times> nat \<Rightarrow> string + bool \<times> nat" where
  "one_context_engine (SparkContext_new master) (active, n) =
     (if active then Inl ''Cannot run multiple SparkContexts at once''
      else Inr (True, Suc n))"
| "one_context_engine c (active, n) = Inr (active, Suc n)"

subsection \<open>Words as the interface description has them\<close>

text \<open>
  The interface description speaks of lines of whitespace-separated words. Read by its
  words, a line is cut at every run of whitespace characters (space, tab, line feed,
  vertical tab, form feed, carriage return) and no piece is empty.
\<close>

definition is_whitespace :: "char \<Rightarrow> bool" where
  "is_whitespace c = (c \<in> set [CHR '' '', CHR 0x09, CHR 0x0A, CHR 0x0B, CHR 0x0C, CHR 0x0D])"

fun ws_split_from :: "string \<Rightarrow> string \<Rightarrow> string list" where
  "ws_split_from cur [] = (if cur = [] then [] else [rev cur])"
| "ws_split_from cur (c # cs) =
     (if is_whitespace c
      then (if cur = [] then ws_split_from [] cs else rev cur # ws_split_from [] cs)
      else ws_split_from (c # cur) cs)"

definition whitespace_separated_words :: "string \<Rightarrow> string list" where
  "whitespace_separated_words line = ws_split_from [] line"

text \<open>The line made of the given words with one space between neighbours.\<close>

fun join_words :: "string list \<Rightarrow> string" where
  "join_words [] = []"
| "join_words [w] = w"
| "join_words (w # v # ws) = w @ CHR '' '' # join_words (v # ws)"

text \<open>Two separators next to each other somewhere in the line.\<close>

fun adjacent_seps :: "char \<Rightarrow> string \<Rightarrow> bool" where
  "adjacent_seps sep (a # b # cs) = ((a = sep \<and> b = sep) \<or> adjacent_seps sep (b # cs))"
| "adjacent_seps sep cs = False"

definition has_empty_piece :: "string \<Rightarrow> bool" where
  "has_empty_piece line =
     (line = [] \<or> hd line = CHR '' '' \<or> last line = CHR '' '' \<or> adjacent_seps CHR '' '' line)"

text \<open>The count an association list holds for a word, zero when it holds none.\<close>

definition count_in :: "(string \<times> int) list \<Rightarrow> string \<Rightarrow> int" where
  "count_in acc w = (case map_of acc w of None \<Rightarrow> 0 | Some n \<Rightarrow> n)"

section \<open>Properties\<close>

subsection \<open>Merging values by key\<close>

lemma merge_value_keys:
  "fst ` set (merge_value f k v acc) = insert k (fst ` set acc)"
proof (induction acc)
  case Nil
  then show ?case by simp
next
  case (Cons p acc)
  then show ?case by (cases p) (simp add: insert_commute)
qed

lemma merge_value_distinct:
  "distinct (map fst acc) \<Longrightarrow> distinct (map fst (merge_value f k v acc))"
proof (induction acc)
  case Nil
  then show ?case by simp
next
  case (Cons p acc)
  obtain k' v' where p: "p = (k', v')" by (cases p)
  show ?case
  proof (cases "k' = k")
    case True
    with Cons.prems p show ?thesis by simp
  next
    case False
    have "k' \<notin> fst ` set (merge_value f k v acc)"
      using Cons.prems p False by (simp add: merge_value_keys)
    with Cons p False show ?thesis by simp
  qed
qed

lemma merge_value_map_of:
  "map_of (merge_value f k v acc) =
     (map_of acc)(k \<mapsto> (case map_of acc k of None \<Rightarrow> v | Some v' \<Rightarrow> f v' v))"
  by (induction acc) (auto simp: fun_eq_iff)

lemma combine_keys:
  "fst ` set (combine_by_key f acc kvs) = fst ` set acc \<union> fst ` set kvs"
  by (induction f acc kvs rule: combine_by_key.induct) (simp_all add: merge_value_keys)

lemma combine_distinct:
  "distinct (map fst acc) \<Longrightarrow> distinct (map fst (combine_by_key f acc kvs))"
  by (induction f acc kvs rule: combine_by_key.induct) (auto simp: merge_value_distinct)

lemma combine_count:
  "count_in (combine_by_key add_counts acc (map word_to_pair toks)) w =
     count_in acc w + int (count_list toks w)"
proof (induction toks arbitrary: acc)
  case Nil
  then show ?case by simp
next
  case (Cons t toks)
  have "count_in (merge_value add_counts t 1 acc) w = count_in acc w + (if t = w then 1 else 0)"
    by (simp add: count_in_def merge_value_map_of add_counts_def split: option.splits)
  with Cons[of "merge_value add_counts t 1 acc"] show ?case
    by (simp add: word_to_pair_def)
qed

subsection \<open>One batch\<close>

lemma batch_distinct:
  "distinct (map fst (rdd_reduceByKey f kvs))"
  by (simp add: rdd_reduceByKey_def combine_distinct)

lemma batch_keys:
  "fst ` set (rdd_reduceByKey add_counts (rdd_map word_to_pair toks)) = set toks"
proof -
  have "fst ` set (map word_to_pair toks) = set toks"
    by (induction toks) (simp_all add: word_to_pair_def)
  then show ?thesis
    by (simp add: rdd_reduceByKey_def rdd_map_def combine_keys del: set_map)
qed

lemma batch_count:
  assumes "(w, n) \<in> set (rdd_reduceByKey add_counts (rdd_map word_to_pair toks))"
  shows "n = int (count_list toks w)"
proof -
  let ?r = "rdd_reduceByKey add_counts (rdd_map word_to_pair toks)"
  have "map_of ?r w = Some n"
    using assms by (simp add: batch_distinct)
  then have "count_in ?r w = n"
    by (simp add: count_in_def)
  moreover have "count_in ?r w = count_in [] w + int (count_list toks w)"
    unfolding rdd_reduceByKey_def rdd_map_def by (rule combine_count)
  ultimately show ?thesis by (simp add: count_in_def)
qed

lemma batch_counts:
  "set (rdd_reduceByKey add_counts (rdd_map word_to_pair toks)) =
     (\<lambda>w. (w, int (count_list toks w))) ` set toks"
proof (rule set_eqI)
  fix p :: "string \<times> int"
  let ?r = "rdd_reduceByKey add_counts (rdd_map word_to_pair toks)"
  obtain w n where p: "p = (w, n)" by (cases p)
  show "p \<in> set ?r \<longleftrightarrow> p \<in> (\<lambda>w. (w, int (count_list toks w))) ` set toks"
  proof
    assume in_r: "p \<in> set ?r"
    then have "fst p \<in> fst ` set ?r" by (rule imageI)
    then have "w \<in> set toks" using p by (simp add: batch_keys)
    moreover have "n = int (count_list toks w)"
      using in_r p batch_count by simp
    ultimately show "p \<in> (\<lambda>w. (w, int (count_list toks w))) ` set toks"
      using p by simp
  next
    assume "p \<in> (\<lambda>w. (w, int (count_list toks w))) ` set toks"
    then have w: "w \<in> set toks" and n: "n = int (count_list toks w)"
      using p by auto
    from w have "w \<in> fst ` set ?r" by (simp add: batch_keys)
    then obtain m where m: "(w, m) \<in> set ?r" by auto
    then have "m = int (count_list toks w)" by (rule batch_count)
    with m n p show "p \<in> set ?r" by simp
  qed
qed

lemma wordCounts_nth:
  "i < length lines \<Longrightarrow>
     wordCounts lines ! i =
       rdd_reduceByKey add_counts (rdd_map word_to_pair (concat (map line_to_words (lines ! i))))"
  by (simp add: wordCounts_def reduceByKey_def pairs_def map_stream_def words_def
      flatMap_def rdd_flatMap_def)

lemma wordCounts_length: "length (wordCounts lines) = length lines"
  by (simp add: wordCounts_def reduceByKey_def pairs_def map_stream_def words_def flatMap_def)

text \<open>
  Claim C1. For every batch of a stream of text lines, the pipeline (\<open>flatMap\<close> with
  \<^verbatim>\<open>line.split(" ")\<close>, \<open>map\<close> to \<open>(word, 1)\<close>, \<open>reduceByKey\<close> with addition)
  yields, for each word among the tokens of the batch's lines, the pair of that word and
  the number of its occurrences among those tokens, no pair for any other key, and no key
  twice.
\<close>

theorem wordCounts_counts_tokens:
  assumes "i < length lines"
  shows "set (wordCounts lines ! i) =
           (\<lambda>w. (w, int (count_list (concat (map line_to_words (lines ! i))) w)))
             ` set (concat (map line_to_words (lines ! i)))
         \<and> distinct (map fst (wordCounts lines ! i))"
  using assms by (simp only: wordCounts_nth batch_counts batch_distinct simp_thms)

theorem wordCounts_counts_tokens_witness:
  "set (wordCounts [[''a b a'', ''b a'']] ! 0) = {(''a'', 3), (''b'', 2)}
   \<and> distinct (map fst (wordCounts [[''a b a'', ''b a'']] ! 0))"
  using wordCounts_counts_tokens [of 0 "[[''a b a'', ''b a'']]"]
  by (simp add: line_to_words_def split_def insert_commute)

text \<open>
  Claim C2. With the line \<open>apache spark\<close> as the whole input of one batch and the line
  \<open>apache hadoop\<close> as the whole input of a later one, the first result holds exactly the
  pairs \<open>(apache, 1)\<close> and \<open>(spark, 1)\<close> and the later one exactly \<open>(apache, 1)\<close> and
  \<open>(hadoop, 1)\<close>.
\<close>

theorem apache_spark_then_hadoop:
  "map set (wordCounts [[''apache spark''], [''apache hadoop'']]) =
     [{(''apache'', 1), (''spark'', 1)}, {(''apache'', 1), (''hadoop'', 1)}]
   \<and> map length (wordCounts [[''apache spark''], [''apache hadoop'']]) = [2, 2]"
  by (simp add: wordCounts_def reduceByKey_def pairs_def map_stream_def words_def
      flatMap_def rdd_flatMap_def rdd_map_def rdd_reduceByKey_def line_to_words_def split_def
      word_to_pair_def add_counts_def)

subsection \<open>Splitting at the separator\<close>

lemma split_from_no_sep:
  "sep \<notin> set w \<Longrightarrow> split_from sep cur w = [rev cur @ w]"
  by (induction w arbitrary: cur) auto

lemma split_from_upto_sep:
  "sep \<notin> set w \<Longrightarrow> split_from sep cur (w @ sep # rest) = (rev cur @ w) # split_from sep [] rest"
  by (induction w arbitrary: cur) auto

lemma ws_split_from_no_ws:
  "\<forall>c\<in>set w. \<not> is_whitespace c \<Longrightarrow> rev cur @ w \<noteq> [] \<Longrightarrow>
     ws_split_from cur w = [rev cur @ w]"
  by (induction w arbitrary: cur) simp_all

lemma ws_split_from_upto_space:
  "\<forall>c\<in>set w. \<not> is_whitespace c \<Longrightarrow> rev cur @ w \<noteq> [] \<Longrightarrow>
     ws_split_from cur (w @ CHR '' '' # rest) = (rev cur @ w) # ws_split_from [] rest"
  by (induction w arbitrary: cur) (simp_all add: is_whitespace_def)

lemma space_is_whitespace: "is_whitespace CHR '' ''"
  by (simp add: is_whitespace_def)

lemma split_join_words:
  "ws \<noteq> [] \<Longrightarrow> \<forall>w\<in>set ws. CHR '' '' \<notin> set w \<Longrightarrow>
     split_from CHR '' '' [] (join_words ws) = ws"
proof (induction ws rule: join_words.induct)
  case 1
  then show ?case by simp
next
  case (2 w)
  then show ?case by (simp add: split_from_no_sep)
next
  case (3 w v ws)
  then show ?case by (simp add: split_from_upto_sep)
qed

lemma ws_split_join_words:
  "ws \<noteq> [] \<Longrightarrow> \<forall>w\<in>set ws. w \<noteq> [] \<and> (\<forall>c\<in>set w. \<not> is_whitespace c) \<Longrightarrow>
     ws_split_from [] (join_words ws) = ws"
proof (induction ws rule: join_words.induct)
  case 1
  then show ?case by simp
next
  case (2 w)
  then show ?case by (simp add: ws_split_from_no_ws)
next
  case (3 w v ws)
  then show ?case by (simp add: ws_split_from_upto_space)
qed

text \<open>
  Read as splitting at any whitespace with no empty token, claim C3 fails on a line with two
  spaces between its words: the notebook cuts at each single space and keeps the empty
  piece between the two.
\<close>

theorem split_differs_from_whitespace_words:
  "line_to_words ''a  b'' \<noteq> whitespace_separated_words ''a  b''"
  by (simp add: line_to_words_def split_def whitespace_separated_words_def is_whitespace_def)

text \<open>
  Claim C3. As amended: when the words of a line are not empty, hold no whitespace
  character, and are separated by exactly one space each, with nothing before the first
  and nothing after the last, the words the pipeline extracts are exactly the
  whitespace-separated words of that line.
\<close>

theorem split_single_spaced_words:
  assumes "ws \<noteq> []"
    and "\<forall>w\<in>set ws. w \<noteq> [] \<and> (\<forall>c\<in>set w. \<not> is_whitespace c)"
  shows "words [[join_words ws]] = [ws]
         \<and> whitespace_separated_words (join_words ws) = ws"
proof -
  have "\<forall>w\<in>set ws. CHR '' '' \<notin> set w"
    using assms(2) space_is_whitespace by blast
  with assms(1) have "line_to_words (join_words ws) = ws"
    by (simp add: line_to_words_def split_def split_join_words)
  moreover have "whitespace_separated_words (join_words ws) = ws"
    using assms by (simp add: whitespace_separated_words_def ws_split_join_words)
  ultimately show ?thesis
    by (simp add: words_def flatMap_def rdd_flatMap_def)
qed

theorem split_single_spaced_words_witness:
  "words [[''apache spark streaming'']] = [[''apache'', ''spark'', ''streaming'']]
   \<and> whitespace_separated_words ''apache spark streaming'' = [''apache'', ''spark'', ''streaming'']"
  using split_single_spaced_words [of "[''apache'', ''spark'', ''streaming'']"]
  by (simp add: is_whitespace_def)

subsection \<open>Empty pieces\<close>

lemma empty_piece_trailing: "[] \<in> set (split_from sep cur (u @ [sep]))"
  by (induction u arbitrary: cur) simp_all

lemma empty_piece_adjacent:
  "adjacent_seps sep line \<Longrightarrow> [] \<in> set (split_from sep cur line)"
proof (induction sep line arbitrary: cur rule: adjacent_seps.induct)
  case (1 sep a b cs)
  then show ?case by (cases "a = sep \<and> b = sep") auto
qed simp_all

lemma empty_piece:
  assumes "has_empty_piece line"
  shows "[] \<in> set (line_to_words line)"
proof -
  consider "line = []" | "line \<noteq> []" "hd line = CHR '' ''" | "line \<noteq> []" "last line = CHR '' ''"
    | "adjacent_seps CHR '' '' line"
    using assms unfolding has_empty_piece_def by blast
  then show ?thesis
  proof cases
    case 1
    then show ?thesis by (simp add: line_to_words_def split_def)
  next
    case 2
    then obtain rest where "line = CHR '' '' # rest" by (cases line) auto
    then show ?thesis by (simp add: line_to_words_def split_def)
  next
    case 3
    then have "line = butlast line @ [CHR '' '']"
      using append_butlast_last_id [of line] by simp
    then show ?thesis
      unfolding line_to_words_def split_def using empty_piece_trailing by metis
  next
    case 4
    then show ?thesis by (simp add: line_to_words_def split_def empty_piece_adjacent)
  qed
qed

text \<open>
  Claim C10. A line that is empty, begins with a space, ends with a space or has two
  spaces in a row makes the pipeline count the empty string as a word: a pair of the empty
  string and some \<open>n \<ge> 1\<close> is in the result of its batch. In every batch result each
  count is at least one.
\<close>

theorem empty_word_counted:
  assumes "i < length lines"
  shows "(\<forall>line\<in>set (lines ! i). has_empty_piece line \<longrightarrow>
            (\<exists>n\<ge>1. ([], n) \<in> set (wordCounts lines ! i)))
         \<and> (\<forall>(w, n)\<in>set (wordCounts lines ! i). 1 \<le> n)"
proof -
  let ?toks = "concat (map line_to_words (lines ! i))"
  have r: "set (wordCounts lines ! i) = (\<lambda>w. (w, int (count_list ?toks w))) ` set ?toks"
    using assms by (simp only: wordCounts_nth batch_counts)
  have pos: "1 \<le> int (count_list ?toks w)" if "w \<in> set ?toks" for w
    using that count_list_0_iff [of ?toks w] by (cases "count_list ?toks w") simp_all
  have "\<exists>n\<ge>1. ([], n) \<in> set (wordCounts lines ! i)"
    if "line \<in> set (lines ! i)" "has_empty_piece line" for line
  proof -
    have "[] \<in> set ?toks"
      using that empty_piece by auto
    then have "1 \<le> int (count_list ?toks []) \<and> ([], int (count_list ?toks [])) \<in> set (wordCounts lines ! i)"
      using pos r by blast
    then show ?thesis by blast
  qed
  moreover have "\<forall>(w, n)\<in>set (wordCounts lines ! i). 1 \<le> n"
    using r pos by auto
  ultimately show ?thesis by blast
qed

theorem empty_word_counted_witness:
  "has_empty_piece ''a  b''
   \<and> (\<exists>n. 1 \<le> n \<and> ([], n) \<in> set (wordCounts [[''a  b'']] ! 0))"
proof -
  have h: "has_empty_piece ''a  b''"
    by (simp add: has_empty_piece_def)
  have "0 < length [[''a  b'']]"
    by simp
  from empty_word_counted [OF this] h show ?thesis
    by simp
qed

subsection \<open>Order of the lines\<close>

lemma mset_tokens:
  "mset b1 = mset b2 \<Longrightarrow> mset (concat (map f b1)) = mset (concat (map f b2))"
proof -
  assume eq: "mset b1 = mset b2"
  have "mset (concat (map f b)) = sum_mset (image_mset (\<lambda>x. mset (f x)) (mset b))" for b
    by (induction b) simp_all
  with eq show ?thesis by simp
qed

lemma batch_counts_mset:
  assumes "mset toks1 = mset toks2"
  shows "set (rdd_reduceByKey add_counts (rdd_map word_to_pair toks1)) =
         set (rdd_reduceByKey add_counts (rdd_map word_to_pair toks2))"
proof -
  have "count_list toks1 w = count_list toks2 w" for w
    using assms count_mset [of toks1 w] count_mset [of toks2 w] by simp
  moreover have "set toks1 = set toks2"
    using assms by (rule mset_eq_setD)
  ultimately show ?thesis by (simp add: batch_counts)
qed

text \<open>
  Claim C9. Two batches whose lists of lines are permutations of each other have the
  same set of (word, count) pairs; more generally, so have two batches with the same
  multiset of tokens.
\<close>

theorem wordCounts_order_independent:
  assumes "i < length lines1" and "j < length lines2"
  shows "(mset (lines1 ! i) = mset (lines2 ! j) \<longrightarrow>
            set (wordCounts lines1 ! i) = set (wordCounts lines2 ! j))
         \<and> (mset (words lines1 ! i) = mset (words lines2 ! j) \<longrightarrow>
            set (wordCounts lines1 ! i) = set (wordCounts lines2 ! j))"
proof -
  have w1: "words lines1 ! i = concat (map line_to_words (lines1 ! i))"
    using assms(1) by (simp add: words_def flatMap_def rdd_flatMap_def)
  have w2: "words lines2 ! j = concat (map line_to_words (lines2 ! j))"
    using assms(2) by (simp add: words_def flatMap_def rdd_flatMap_def)
  have tok: "set (wordCounts lines1 ! i) = set (wordCounts lines2 ! j)"
    if "mset (words lines1 ! i) = mset (words lines2 ! j)"
    using batch_counts_mset [OF that] assms by (simp add: wordCounts_nth w1 w2)
  moreover have "mset (words lines1 ! i) = mset (words lines2 ! j)"
    if "mset (lines1 ! i) = mset (lines2 ! j)"
    unfolding w1 w2 using that by (rule mset_tokens)
  ultimately show ?thesis by blast
qed

theorem wordCounts_order_independent_witness:
  "mset ([[''a b'', ''c a'']] ! 0) = mset ([[''c a'', ''a b'']] ! 0)
   \<and> mset (words [[''a b'', ''c a'']] ! 0) = mset (words [[''c a'', ''a b'']] ! 0)
   \<and> set (wordCounts [[''a b'', ''c a'']] ! 0) = set (wordCounts [[''c a'', ''a b'']] ! 0)"
proof -
  have l: "mset ([[''a b'', ''c a'']] ! 0) = mset ([[''c a'', ''a b'']] ! 0)"
    by (simp add: add_mset_commute)
  have w: "mset (words [[''a b'', ''c a'']] ! 0) = mset (words [[''c a'', ''a b'']] ! 0)"
    by (simp add: words_def flatMap_def rdd_flatMap_def line_to_words_def split_def
        add_mset_commute)
  show ?thesis
    using l w wordCounts_order_independent [of 0 "[[''a b'', ''c a'']]" 0 "[[''c a'', ''a b'']]"]
    by simp
qed

subsection \<open>Printing\<close>

lemma records_of_Records: "records_of (map Record xs @ rest) = xs @ records_of rest"
  by (induction xs) simp_all

lemma takeAndPrint_records: "records_of (takeAndPrint num time records) = take num records"
proof -
  have "records_of (map Record (take num records) @ rest) = take num records"
    if "records_of rest = []" for rest :: "'a console_line list"
    using that by (simp add: records_of_Records)
  then show ?thesis
    by (simp add: takeAndPrint_def Let_def min_def)
qed

lemma takeAndPrint_header:
  "take 3 (takeAndPrint num time records) = [Rule, Time_line time, Rule]"
  by (simp add: takeAndPrint_def Let_def)

lemma takeAndPrint_ellipsis:
  "Ellipsis \<in> set (takeAndPrint num time records) \<longleftrightarrow> num < length records"
  by (auto simp: takeAndPrint_def Let_def min_def)

lemma pprint_nth:
  "i < length ds \<Longrightarrow> length batch_times = length ds \<Longrightarrow>
     pprint num batch_times ds ! i = takeAndPrint num (batch_times ! i) (ds ! i)"
  by (simp add: pprint_def)

lemma batch_length:
  "length (rdd_reduceByKey add_counts (rdd_map word_to_pair toks)) = card (set toks)"
proof -
  let ?r = "rdd_reduceByKey add_counts (rdd_map word_to_pair toks)"
  have "length ?r = length (map fst ?r)"
    by simp
  also have "\<dots> = card (set (map fst ?r))"
    using batch_distinct [of add_counts "rdd_map word_to_pair toks"]
    by (simp only: distinct_card)
  also have "\<dots> = card (set toks)"
    by (simp add: batch_keys)
  finally show ?thesis .
qed

lemma wordCounts_nth_length:
  "i < length lines \<Longrightarrow> length (wordCounts lines ! i) = card (set (words lines ! i))"
  by (simp add: wordCounts_nth batch_length words_def flatMap_def rdd_flatMap_def)

lemma takeAndPrint_layout:
  "takeAndPrint num time records =
     [Rule, Time_line time, Rule] @ map Record (take num records)
     @ (if num < length records then [Ellipsis] else []) @ [Blank]"
  by (auto simp: takeAndPrint_def Let_def min_def)

text \<open>
  Read as printing every pair of a batch of any size, claim C7 fails on a batch with eleven
  different words: eleven pairs are computed and ten are printed, whichever they are.
\<close>

theorem pprint_omits_eleventh_pair:
  "length (wordCounts [[''a b c d e f g h i j k'']] ! 0) = 11
   \<and> length (records_of (pprint 10 [0] (wordCounts [[''a b c d e f g h i j k'']]) ! 0)) = 10"
  by (simp add: wordCounts_def reduceByKey_def pairs_def map_stream_def words_def
      flatMap_def rdd_flatMap_def rdd_map_def rdd_reduceByKey_def line_to_words_def split_def
      word_to_pair_def add_counts_def pprint_def takeAndPrint_def)

text \<open>
  Claim C7. As amended: for every micro-batch, in whatever order the engine holds the
  pairs of the batch's result, the block printed for the batch is the header of that
  batch's time, then the first ten pairs in that order (all of them when there are at most
  ten), then a line of dots exactly when there are more than ten pairs, then an empty
  line. So every printed pair is a pair computed by the pipeline for that batch, the
  number of printed pairs is the smaller of ten and the number of different words of the
  batch, and for a batch with at most ten different words the printed pairs are exactly
  the computed ones.
\<close>

theorem pprint_shows_first_ten:
  assumes "i < length lines"
    and "length batch_times = length lines"
    and "length counts = length lines"
    and "mset (counts ! i) = mset (wordCounts lines ! i)"
  shows "pprint 10 batch_times counts ! i
           = [Rule, Time_line (batch_times ! i), Rule] @ map Record (take 10 (counts ! i))
             @ (if 10 < card (set (words lines ! i)) then [Ellipsis] else []) @ [Blank]
         \<and> set (records_of (pprint 10 batch_times counts ! i)) \<subseteq> set (wordCounts lines ! i)
         \<and> length (records_of (pprint 10 batch_times counts ! i))
           = min 10 (card (set (words lines ! i)))
         \<and> (card (set (words lines ! i)) \<le> 10 \<longrightarrow>
            mset (records_of (pprint 10 batch_times counts ! i)) = mset (wordCounts lines ! i))"
proof -
  have block: "pprint 10 batch_times counts ! i = takeAndPrint 10 (batch_times ! i) (counts ! i)"
    using assms(1-3) by (simp add: pprint_nth)
  have "length (counts ! i) = length (wordCounts lines ! i)"
    using assms(4) by (rule mset_eq_length)
  then have len: "length (counts ! i) = card (set (words lines ! i))"
    using assms(1) by (simp add: wordCounts_nth_length)
  have same: "set (counts ! i) = set (wordCounts lines ! i)"
    using assms(4) by (rule mset_eq_setD)
  have recs: "records_of (pprint 10 batch_times counts ! i) = take 10 (counts ! i)"
    by (simp add: block takeAndPrint_records)
  have "pprint 10 batch_times counts ! i
          = [Rule, Time_line (batch_times ! i), Rule] @ map Record (take 10 (counts ! i))
            @ (if 10 < card (set (words lines ! i)) then [Ellipsis] else []) @ [Blank]"
    unfolding block len [symmetric] by (rule takeAndPrint_layout)
  moreover have "set (records_of (pprint 10 batch_times counts ! i)) \<subseteq> set (wordCounts lines ! i)"
    unfolding recs same [symmetric] by (rule set_take_subset)
  moreover have "length (records_of (pprint 10 batch_times counts ! i))
                   = min 10 (card (set (words lines ! i)))"
    unfolding recs using len by (simp add: min.commute)
  moreover have "mset (records_of (pprint 10 batch_times counts ! i)) = mset (wordCounts lines ! i)"
    if "card (set (words lines ! i)) \<le> 10"
    unfolding recs using that len assms(4) by simp
  ultimately show ?thesis by blast
qed

theorem pprint_shows_first_ten_witness:
  "mset ([[], [(''spark'', 1::int), (''apache'', 1)]] ! 1) = mset (wordCounts [[], [''apache spark'']] ! 1)
   \<and> pprint 10 [35, 40] [[], [(''spark'', 1::int), (''apache'', 1)]] ! 1
     = [Rule, Time_line 40, Rule, Record (''spark'', 1::int), Record (''apache'', 1), Blank]
   \<and> mset (records_of (pprint 10 [35, 40] [[], [(''spark'', 1::int), (''apache'', 1)]] ! 1))
     = mset (wordCounts [[], [''apache spark'']] ! 1)"
proof -
  have m: "mset ([[], [(''spark'', 1::int), (''apache'', 1)]] ! 1)
             = mset (wordCounts [[], [''apache spark'']] ! 1)"
    by (simp add: wordCounts_def reduceByKey_def pairs_def map_stream_def words_def
      flatMap_def rdd_flatMap_def rdd_map_def rdd_reduceByKey_def line_to_words_def split_def
      word_to_pair_def add_counts_def add_mset_commute)
  have c: "card (set (words [[], [''apache spark'']] ! 1)) = 2"
    by (simp add: words_def flatMap_def rdd_flatMap_def line_to_words_def split_def)
  from m c
    pprint_shows_first_ten [of 1 "[[], [''apache spark'']]" "[35, 40]"
      "[[], [(''spark'', 1::int), (''apache'', 1)]]"]
  show ?thesis by simp
qed

subsection \<open>The calls of the notebook\<close>

lemmas notebook_defs = notebook_def cell_1_def cell_2_def cell_3_def cell_4_def

text \<open>
  Claim C4 counts two transformations between the creation of the stream and the start;
  the notebook applies three.
\<close>

theorem three_transformations_not_two:
  "length (filter (\<lambda>c. kind c = Transformation) (stream_setup notebook)) \<noteq> 2"
  by (simp add: notebook_defs stream_setup_def)

text \<open>
  Claim C4. As amended: between creating the socket stream and starting the
  computation the notebook applies exactly three transformations, \<open>flatMap\<close>, \<open>map\<close>
  and \<open>reduceByKey\<close> in this order, and then registers one output operation, \<open>pprint\<close>;
  in all it issues nine calls in this order: \<open>SparkContext\<close>, \<open>StreamingContext\<close>,
  \<open>socketTextStream\<close>, \<open>flatMap\<close>, \<open>map\<close>, \<open>reduceByKey\<close>, \<open>pprint\<close>, \<open>start\<close>,
  \<open>awaitTermination\<close>.
\<close>

theorem notebook_call_sequence:
  "map name_of (filter (\<lambda>c. kind c = Transformation) (stream_setup notebook))
     = [N_flatMap, N_map, N_reduceByKey]
   \<and> map name_of (stream_setup notebook) = [N_flatMap, N_map, N_reduceByKey, N_pprint]
   \<and> map kind (stream_setup notebook)
     = [Transformation, Transformation, Transformation, Output_operation]
   \<and> map name_of notebook
     = [N_SparkContext, N_StreamingContext, N_socketTextStream,
        N_flatMap, N_map, N_reduceByKey, N_pprint, N_start, N_awaitTermination]
   \<and> map kind notebook
     = [Create_context, Create_context, Create_stream,
        Transformation, Transformation, Transformation, Output_operation,
        Start_computation, Await_termination]"
  by (simp add: notebook_defs stream_setup_def)

text \<open>
  Claim C5 excludes a port number from what the notebook passes; the port 9999 is passed
  to the engine by the notebook.
\<close>

theorem port_is_passed:
  "Int_arg 9999 \<in> set (concat (map scalar_args notebook))"
  by (simp add: notebook_defs)

text \<open>
  Claim C5. As amended: the scalar arguments the notebook supplies to the engine are,
  in order, the master \<open>local\<close>, the batch interval 5, the host name \<open>localhost\<close>, the
  port 9999 and the await-termination timeout 20, and no other.
\<close>

theorem notebook_scalar_arguments:
  "concat (map scalar_args notebook)
     = [Str_arg ''local'', Int_arg 5, Str_arg ''localhost'', Int_arg 9999, Int_arg 20]"
  by (simp add: notebook_defs)

subsection \<open>Errors\<close>

lemma run_calls_append:
  "run_calls exec (xs @ ys) s =
     (case run_calls exec xs s of Inl es \<Rightarrow> Inl es | Inr s' \<Rightarrow> run_calls exec ys s')"
  by (induction xs arbitrary: s) (simp_all split: sum.splits)

lemma run_calls_raises:
  assumes "k < length calls"
    and "run_calls exec (take k calls) s = Inr s'"
    and "exec (calls ! k) s' = Inl e"
  shows "run_calls exec calls s = Inl (e, s')"
proof -
  have "calls = take k calls @ calls ! k # drop (Suc k) calls"
    using assms(1) by (rule id_take_nth_drop)
  then have "run_calls exec calls s = run_calls exec (take k calls @ calls ! k # drop (Suc k) calls) s"
    by simp
  also have "\<dots> = Inl (e, s')"
    using assms(2,3) by (simp add: run_calls_append)
  finally show ?thesis .
qed

text \<open>A program of plain calls runs as the sequence of its calls.\<close>

lemma run_program_plain_calls:
  "run_program exec (map Call calls) s = run_calls exec calls s"
  by (induction calls arbitrary: s) (simp_all split: sum.splits)

text \<open>
  A handler changes the outcome: with the creation of the context inside a
  \<^verbatim>\<open>try\<close>, the error of the engine is dropped and the run goes on.
\<close>

lemma handler_suppresses_error:
  "run_program one_context_engine
     (Try_except [SparkContext_new ''local''] [] # map Call (cell_2 @ cell_3 @ cell_4)) (True, 0)
     = Inr (True, 8)"
  by (simp add: cell_2_def cell_3_def cell_4_def)

text \<open>
  Claim C8. Whatever the engine does, when the statements before the \<open>k\<close>-th have
  succeeded and the engine raises an error on the \<open>k\<close>-th call, the run of the notebook
  ends with exactly that error, in the state the engine was in when it raised: nothing
  catches the error, changes it or carries on after it.
\<close>

theorem notebook_propagates_errors:
  assumes "k < length notebook"
    and "run_program exec (take k notebook_program) s = Inr s'"
    and "exec (notebook ! k) s' = Inl e"
  shows "run_program exec notebook_program s = Inl (e, s')"
proof -
  have "run_calls exec (take k notebook) s = Inr s'"
    using assms(2) by (simp add: notebook_program_def take_map run_program_plain_calls)
  with assms(1) have "run_calls exec notebook s = Inl (e, s')"
    using assms(3) by (rule run_calls_raises)
  then show ?thesis
    by (simp add: notebook_program_def run_program_plain_calls)
qed

theorem notebook_propagates_errors_witness:
  "0 < length notebook
   \<and> run_program one_context_engine (take 0 notebook_program) (True, 0) = Inr (True, 0)
   \<and> one_context_engine (notebook ! 0) (True, 0)
       = Inl ''Cannot run multiple SparkContexts at once''
   \<and> run_program one_context_engine notebook_program (True, 0)
       = Inl (''Cannot run multiple SparkContexts at once'', True, 0)"
proof -
  have a: "0 < length notebook" by (simp add: notebook_defs)
  have b: "run_program one_context_engine (take 0 notebook_program) (True, 0) = Inr (True, 0)"
    by simp
  have c: "one_context_engine (notebook ! 0) (True, 0)
             = Inl ''Cannot run multiple SparkContexts at once''"
    by (simp add: notebook_defs)
  from a b c notebook_propagates_errors [OF a b c] show ?thesis by simp
qed

end
